theory Spec2Isabelle
  imports Complex_Main "HOL-Library.Multiset" "HOL-Library.Char_ord"
    "HOL-Library.List_Lexorder" "HOL-Library.Product_Lexorder"
begin

section \<open>Python strings\<close>

text \<open>
  A Python \<open>str\<close> is modelled as a \<open>string\<close>: a list of characters with code points
  below 256.  The two line boundaries U+2028 and U+2029 of \<open>str.splitlines\<close> lie outside
  this range; the eight others are characters of the model.
\<close>

definition is_linebreak :: "char \<Rightarrow> bool" where
  "is_linebreak c \<longleftrightarrow>
     c = CHR 0x0A \<or> c = CHR 0x0B \<or> c = CHR 0x0C \<or> c = CHR 0x0D \<or>
     c = CHR 0x1C \<or> c = CHR 0x1D \<or> c = CHR 0x1E \<or> c = CHR 0x85"

text \<open>
  \<open>str.splitlines(keepends)\<close>: scan to the next line boundary, take \<open>\r\n\<close> as one
  boundary, emit the line with or without its boundary; a last line without a boundary
  is emitted when it is not empty.  \<open>cur\<close> is the line read so far.
\<close>

fun splitlines_from :: "bool \<Rightarrow> string \<Rightarrow> string \<Rightarrow> string list" where
  "splitlines_from keepends cur [] = (if cur = [] then [] else [cur])"
| "splitlines_from keepends cur (c # cs) =
     (if is_linebreak c then
        (case cs of
           [] \<Rightarrow> [cur @ (if keepends then [c] else [])]
         | c' # cs' \<Rightarrow>
             if c = CHR 0x0D \<and> c' = CHR 0x0A
             then (cur @ (if keepends then [c, c'] else [])) # splitlines_from keepends [] cs'
             else (cur @ (if keepends then [c] else [])) # splitlines_from keepends [] cs)
      else splitlines_from keepends (cur @ [c]) cs)"

definition splitlines :: "bool \<Rightarrow> string \<Rightarrow> string list" where
  "splitlines keepends s = splitlines_from keepends [] s"

definition startswith :: "string \<Rightarrow> string \<Rightarrow> bool" where
  "startswith s p \<longleftrightarrow> take (length p) s = p"

text \<open>\<open>str.isspace\<close> on one character, and \<open>str.rstrip()\<close>.\<close>

definition isspace :: "char \<Rightarrow> bool" where
  "isspace c \<longleftrightarrow>
     c = CHR 0x09 \<or> c = CHR 0x0A \<or> c = CHR 0x0B \<or> c = CHR 0x0C \<or> c = CHR 0x0D \<or>
     c = CHR 0x1C \<or> c = CHR 0x1D \<or> c = CHR 0x1E \<or> c = CHR 0x1F \<or> c = CHR 0x20 \<or>
     c = CHR 0x85 \<or> c = CHR 0xA0"

definition rstrip :: "string \<Rightarrow> string" where
  "rstrip s = rev (dropWhile isspace (rev s))"

section \<open>difflib.SequenceMatcher\<close>

text \<open>
  The standard library's \<open>SequenceMatcher(isjunk=None, a, b, autojunk=True)\<close>, as
  \<open>Differ()\<close> creates it, over sequences of any element type.  Indices are natural
  numbers; where the Python subtracts, the model adds on the other side or guards the
  subtraction, and the bounds lemmas below show that no subtraction truncates.
\<close>

type_synonym match = "nat \<times> nat \<times> nat"

text \<open>
  \<open>__chain_b\<close> builds the dictionary \<open>b2j\<close> from each element of \<open>b\<close> to the ascending
  list of its indices, then deletes the popular elements: when \<open>b\<close> has at least 200
  elements, those with more than \<open>n // 100 + 1\<close> occurrences.  No element is junk
  (\<open>isjunk\<close> is \<open>None\<close>).  The model is the dictionary's lookup \<open>b2j.get(elt, [])\<close>.
\<close>

definition popular :: "'a list \<Rightarrow> 'a \<Rightarrow> bool" where
  "popular b elt \<longleftrightarrow> length b \<ge> 200 \<and> count_list b elt > length b div 100 + 1"

definition b2j_get :: "'a list \<Rightarrow> 'a \<Rightarrow> nat list" where
  "b2j_get b elt = (if popular b elt then [] else filter (\<lambda>j. b ! j = elt) [0..<length b])"

definition isbjunk :: "'a \<Rightarrow> bool" where
  "isbjunk x = False"

text \<open>\<open>j2len.get(j-1, 0)\<close>: the key \<open>-1\<close> is never in the dictionary.\<close>

definition j2len_get :: "(nat \<rightharpoonup> nat) \<Rightarrow> nat \<Rightarrow> nat" where
  "j2len_get j2len j = (if j = 0 then 0 else case j2len (j - 1) of None \<Rightarrow> 0 | Some k \<Rightarrow> k)"

text \<open>The inner loop of \<open>find_longest_match\<close> over the indices \<open>j\<close> of \<open>a[i]\<close> in \<open>b\<close>.\<close>

fun flm_inner :: "nat \<Rightarrow> nat \<Rightarrow> nat \<Rightarrow> (nat \<rightharpoonup> nat) \<Rightarrow> nat list \<Rightarrow>
    (nat \<rightharpoonup> nat) \<times> match \<Rightarrow> (nat \<rightharpoonup> nat) \<times> match" where
  "flm_inner blo bhi i j2len [] st = st"
| "flm_inner blo bhi i j2len (j # js) (newj2len, (besti, bestj, bestsize)) =
     (if j < blo then flm_inner blo bhi i j2len js (newj2len, (besti, bestj, bestsize))
      else if j \<ge> bhi then (newj2len, (besti, bestj, bestsize))
      else
        let k = j2len_get j2len j + 1 in
        flm_inner blo bhi i j2len js
          (newj2len(j \<mapsto> k),
           if k > bestsize then (i + 1 - k, j + 1 - k, k) else (besti, bestj, bestsize)))"

text \<open>The outer loop \<open>for i in range(alo, ahi)\<close>; the state is \<open>j2len\<close> and the best match.\<close>

fun flm_outer :: "'a list \<Rightarrow> 'a list \<Rightarrow> nat \<Rightarrow> nat \<Rightarrow> nat list \<Rightarrow>
    (nat \<rightharpoonup> nat) \<times> match \<Rightarrow> (nat \<rightharpoonup> nat) \<times> match" where
  "flm_outer a b blo bhi [] st = st"
| "flm_outer a b blo bhi (i # is) (j2len, best) =
     flm_outer a b blo bhi is
       (flm_inner blo bhi i j2len (b2j_get b (a ! i)) (Map.empty, best))"

text \<open>
  The four \<open>while\<close> loops that extend the best match: backwards and forwards over
  elements that are not junk (\<open>junk = False\<close>), then over junk elements (\<open>junk = True\<close>).
\<close>

function extend_back :: "bool \<Rightarrow> 'a list \<Rightarrow> 'a list \<Rightarrow> nat \<Rightarrow> nat \<Rightarrow> match \<Rightarrow> match" where
  "extend_back junk a b alo blo (besti, bestj, bestsize) =
     (if besti > alo \<and> bestj > blo \<and> isbjunk (b ! (bestj - 1)) = junk \<and>
         a ! (besti - 1) = b ! (bestj - 1)
      then extend_back junk a b alo blo (besti - 1, bestj - 1, bestsize + 1)
      else (besti, bestj, bestsize))"
  by pat_completeness auto
termination
  by (relation "measure (\<lambda>(junk, a, b, alo, blo, besti, bestj, bestsize). besti)") auto

function extend_fwd :: "bool \<Rightarrow> 'a list \<Rightarrow> 'a list \<Rightarrow> nat \<Rightarrow> nat \<Rightarrow> match \<Rightarrow> match" where
  "extend_fwd junk a b ahi bhi (besti, bestj, bestsize) =
     (if besti + bestsize < ahi \<and> bestj + bestsize < bhi \<and>
         isbjunk (b ! (bestj + bestsize)) = junk \<and>
         a ! (besti + bestsize) = b ! (bestj + bestsize)
      then extend_fwd junk a b ahi bhi (besti, bestj, bestsize + 1)
      else (besti, bestj, bestsize))"
  by pat_completeness auto
termination
  by (relation "measure (\<lambda>(junk, a, b, ahi, bhi, besti, bestj, bestsize). ahi - (besti + bestsize))")
    auto

definition find_longest_match :: "'a list \<Rightarrow> 'a list \<Rightarrow> nat \<Rightarrow> nat \<Rightarrow> nat \<Rightarrow> nat \<Rightarrow> match" where
  "find_longest_match a b alo ahi blo bhi =
     (let best = snd (flm_outer a b blo bhi [alo..<ahi] (Map.empty, (alo, blo, 0)));
          best = extend_back False a b alo blo best;
          best = extend_fwd False a b ahi bhi best;
          best = extend_back True a b alo blo best;
          best = extend_fwd True a b ahi bhi best
      in best)"


subsection \<open>The match that \<open>find_longest_match\<close> returns lies in its region\<close>

definition agree :: "'a list \<Rightarrow> 'a list \<Rightarrow> nat \<Rightarrow> nat \<Rightarrow> nat \<Rightarrow> bool" where
  "agree a b i j k \<longleftrightarrow> (\<forall>t<k. a ! (i + t) = b ! (j + t))"

definition best_ok :: "'a list \<Rightarrow> 'a list \<Rightarrow> nat \<Rightarrow> nat \<Rightarrow> nat \<Rightarrow> nat \<Rightarrow> match \<Rightarrow> bool" where
  "best_ok a b alo blo bhi n m \<longleftrightarrow>
     (case m of (bi, bj, bs) \<Rightarrow>
        (bs = 0 \<and> bi = alo \<and> bj = blo) \<or>
        (0 < bs \<and> alo \<le> bi \<and> bi + bs \<le> n \<and> blo \<le> bj \<and> bj + bs \<le> bhi \<and> agree a b bi bj bs))"

definition j2len_ok :: "'a list \<Rightarrow> 'a list \<Rightarrow> nat \<Rightarrow> nat \<Rightarrow> nat \<Rightarrow> nat \<Rightarrow> (nat \<rightharpoonup> nat) \<Rightarrow> bool" where
  "j2len_ok a b alo blo bhi n j2len \<longleftrightarrow>
     (\<forall>j k. j2len j = Some k \<longrightarrow>
        0 < k \<and> alo + k \<le> n \<and> blo + k \<le> j + 1 \<and> j < bhi \<and> agree a b (n - k) (j + 1 - k) k)"

lemma agree_0: "agree a b i j 0"
  by (simp add: agree_def)

lemma agree_snoc:
  "agree a b i j k \<Longrightarrow> a ! (i + k) = b ! (j + k) \<Longrightarrow> agree a b i j (Suc k)"
  by (auto simp: agree_def less_Suc_eq)

lemma agree_cons:
  "agree a b (Suc i) (Suc j) k \<Longrightarrow> a ! i = b ! j \<Longrightarrow> agree a b i j (Suc k)"
  unfolding agree_def
proof (intro allI impI)
  fix t assume h: "\<forall>t<k. a ! (Suc i + t) = b ! (Suc j + t)" "a ! i = b ! j" "t < Suc k"
  show "a ! (i + t) = b ! (j + t)"
  proof (cases t)
    case 0 then show ?thesis using h by simp
  next
    case (Suc t') then show ?thesis using h(1)[rule_format, of t'] h(3) by simp
  qed
qed

lemma best_ok_mono: "best_ok a b alo blo bhi n m \<Longrightarrow> n \<le> n' \<Longrightarrow> best_ok a b alo blo bhi n' m"
  by (auto simp: best_ok_def split: prod.splits)

lemma j2len_get_step:
  assumes "j2len_ok a b alo blo bhi i j2len" "a ! i = b ! j" "blo \<le> j" "j < bhi" "alo \<le> i"
  defines "k \<equiv> j2len_get j2len j + 1"
  shows "0 < k \<and> alo + k \<le> i + 1 \<and> blo + k \<le> j + 1 \<and> agree a b (i + 1 - k) (j + 1 - k) k"
proof (cases "j = 0 \<or> j2len (j - 1) = None")
  case True
  then have "k = 1" by (auto simp: k_def j2len_get_def)
  then show ?thesis using assms by (simp add: agree_def)
next
  case False
  then obtain k' where k': "j \<noteq> 0" "j2len (j - 1) = Some k'" by auto
  then have kk: "k = Suc k'" by (simp add: k_def j2len_get_def)
  from assms(1) k'(2) have p: "0 < k'" "alo + k' \<le> i" "blo + k' \<le> j - 1 + 1"
     "agree a b (i - k') (j - 1 + 1 - k') k'"
    by (auto simp: j2len_ok_def)
  have "agree a b (i - k') (j - k') (Suc k')"
    using p k'(1) assms(2) by (intro agree_snoc) auto
  then show ?thesis using p k'(1) kk by simp
qed

lemma flm_inner_inv:
  assumes "j2len_ok a b alo blo bhi i j2len" "alo \<le> i"
    and "\<forall>j\<in>set js. a ! i = b ! j"
    and "j2len_ok a b alo blo bhi (Suc i) new" "best_ok a b alo blo bhi (Suc i) best"
  shows "j2len_ok a b alo blo bhi (Suc i) (fst (flm_inner blo bhi i j2len js (new, best))) \<and>
         best_ok a b alo blo bhi (Suc i) (snd (flm_inner blo bhi i j2len js (new, best)))"
  using assms(3-)
proof (induction js arbitrary: new best)
  case Nil
  then show ?case by simp
next
  case (Cons j js)
  obtain bi bj bs where best: "best = (bi, bj, bs)" by (cases best) auto
  show ?case
  proof (cases "j < blo")
    case True
    then show ?thesis using Cons best by simp
  next
    case False
    note nlt = this
    show ?thesis
    proof (cases "j \<ge> bhi")
      case True
      then show ?thesis using Cons nlt best by simp
    next
      case False
      define k where "k = j2len_get j2len j + 1"
      have st: "0 < k \<and> alo + k \<le> i + 1 \<and> blo + k \<le> j + 1 \<and> agree a b (i + 1 - k) (j + 1 - k) k"
        unfolding k_def using assms(1,2) Cons.prems(1) nlt False
        by (intro j2len_get_step) auto
      have n1: "j2len_ok a b alo blo bhi (Suc i) (new(j \<mapsto> k))"
        using Cons.prems(2) st False unfolding j2len_ok_def by auto
      have n2: "best_ok a b alo blo bhi (Suc i)
                 (if k > bs then (i + 1 - k, j + 1 - k, k) else (bi, bj, bs))"
        using Cons.prems(3) st False best by (auto simp: best_ok_def)
      have "flm_inner blo bhi i j2len (j # js) (new, best) =
            flm_inner blo bhi i j2len js (new(j \<mapsto> k),
               if k > bs then (i + 1 - k, j + 1 - k, k) else (bi, bj, bs))"
        using nlt False best by (simp add: k_def Let_def)
      moreover have "\<forall>j\<in>set js. a ! i = b ! j" using Cons.prems(1) by (meson list.set_intros(2))
      note Cons.IH[OF this n1 n2]
      ultimately show ?thesis by (simp only:)
    qed
  qed
qed

lemma b2j_get_sound: "j \<in> set (b2j_get b x) \<Longrightarrow> b ! j = x"
  by (auto simp: b2j_get_def split: if_splits)

lemma j2len_ok_empty: "j2len_ok a b alo blo bhi n Map.empty"
  by (simp add: j2len_ok_def)

lemma flm_outer_inv:
  assumes "j2len_ok a b alo blo bhi i j2len" "best_ok a b alo blo bhi i best" "alo \<le> i"
  shows "best_ok a b alo blo bhi (i + n) (snd (flm_outer a b blo bhi [i..<i + n] (j2len, best)))"
  using assms
proof (induction n arbitrary: i j2len best)
  case 0
  then show ?case by simp
next
  case (Suc n)
  let ?st = "flm_inner blo bhi i j2len (b2j_get b (a ! i)) (Map.empty, best)"
  have inv: "j2len_ok a b alo blo bhi (Suc i) (fst ?st) \<and> best_ok a b alo blo bhi (Suc i) (snd ?st)"
    using Suc.prems
    by (intro flm_inner_inv) (auto simp: b2j_get_sound j2len_ok_empty intro: best_ok_mono)
  have "[i..<i + Suc n] = i # [Suc i..<Suc i + n]"
    by (simp add: upt_conv_Cons)
  then have "flm_outer a b blo bhi [i..<i + Suc n] (j2len, best) =
        flm_outer a b blo bhi [Suc i..<Suc i + n] (fst ?st, snd ?st)"
    by simp
  then show ?case using Suc.IH[of "Suc i" "fst ?st" "snd ?st"] inv Suc.prems(3) by simp
qed


declare extend_back.simps [simp del] extend_fwd.simps [simp del]

lemma extend_back_ok:
  "best_ok a b alo blo bhi n m \<Longrightarrow> best_ok a b alo blo bhi n (extend_back junk a b alo blo m)"
proof (induction junk a b alo blo m rule: extend_back.induct)
  case (1 junk a b alo blo besti bestj bestsize)
  show ?case
  proof (cases "besti > alo \<and> bestj > blo \<and> isbjunk (b ! (bestj - 1)) = junk \<and>
         a ! (besti - 1) = b ! (bestj - 1)")
    case True
    have "agree a b (besti - 1) (bestj - 1) (Suc bestsize)"
      using True "1.prems" by (intro agree_cons) (auto simp: best_ok_def)
    then have "best_ok a b alo blo bhi n (besti - 1, bestj - 1, bestsize + 1)"
      using True "1.prems" by (auto simp: best_ok_def)
    from "1.IH"[OF True this] show ?thesis using True
      by (subst extend_back.simps) simp
  next
    case False
    then show ?thesis using "1.prems"
      by (subst extend_back.simps) auto
  qed
qed

lemma extend_fwd_ok:
  "best_ok a b alo blo bhi ahi m \<Longrightarrow> best_ok a b alo blo bhi ahi (extend_fwd junk a b ahi bhi m)"
proof (induction junk a b ahi bhi m rule: extend_fwd.induct)
  case (1 junk a b ahi bhi besti bestj bestsize)
  show ?case
  proof (cases "besti + bestsize < ahi \<and> bestj + bestsize < bhi \<and>
         isbjunk (b ! (bestj + bestsize)) = junk \<and>
         a ! (besti + bestsize) = b ! (bestj + bestsize)")
    case True
    have "agree a b besti bestj (Suc bestsize)"
      using True "1.prems" by (intro agree_snoc) (auto simp: best_ok_def agree_0)
    then have "best_ok a b alo blo bhi ahi (besti, bestj, bestsize + 1)"
      using True "1.prems" by (auto simp: best_ok_def)
    from "1.IH"[OF True this] show ?thesis using True
      by (subst extend_fwd.simps) simp
  next
    case False
    then show ?thesis using "1.prems"
      by (subst extend_fwd.simps) auto
  qed
qed

lemma flm_outer_range_ok:
  "best_ok a b alo blo bhi ahi (snd (flm_outer a b blo bhi [alo..<ahi] (Map.empty, (alo, blo, 0))))"
proof (cases "alo \<le> ahi")
  case True
  have "best_ok a b alo blo bhi (alo + (ahi - alo))
          (snd (flm_outer a b blo bhi [alo..<alo + (ahi - alo)] (Map.empty, (alo, blo, 0))))"
    by (intro flm_outer_inv) (auto simp: j2len_ok_empty best_ok_def)
  then show ?thesis using True by simp
next
  case False
  then show ?thesis by (simp add: best_ok_def)
qed

lemma find_longest_match_ok:
  "best_ok a b alo blo bhi ahi (find_longest_match a b alo ahi blo bhi)"
  unfolding find_longest_match_def Let_def
  by (intro extend_fwd_ok extend_back_ok flm_outer_range_ok)

lemma find_longest_match_bounds:
  assumes "find_longest_match a b alo ahi blo bhi = (i, j, k)" "k \<noteq> 0"
  shows "alo \<le> i" "i + k \<le> ahi" "blo \<le> j" "j + k \<le> bhi" "agree a b i j k"
  using find_longest_match_ok[of a b alo blo bhi ahi] assms by (auto simp: best_ok_def)

lemma find_longest_match_zero:
  assumes "find_longest_match a b alo ahi blo bhi = (i, j, 0)"
  shows "i = alo" "j = blo"
  using find_longest_match_ok[of a b alo blo bhi ahi] assms by (auto simp: best_ok_def)

subsection \<open>Matching blocks and opcodes\<close>

text \<open>
  The loop of \<open>get_matching_blocks\<close> over its work list.  \<open>queue.pop()\<close> takes the last
  element of the Python list, so the list is kept with its end first.  The function
  returns the blocks in the order in which the loop appends them to \<open>matching_blocks\<close>.
\<close>

function gmb_loop :: "'a list \<Rightarrow> 'a list \<Rightarrow> (nat \<times> nat \<times> nat \<times> nat) list \<Rightarrow> match list" where
  "gmb_loop a b [] = []"
| "gmb_loop a b ((alo, ahi, blo, bhi) # queue) =
     (case find_longest_match a b alo ahi blo bhi of
        (i, j, k) \<Rightarrow>
          if k \<noteq> 0 then
            (i, j, k) #
            gmb_loop a b
              ((if i + k < ahi \<and> j + k < bhi then [(i + k, ahi, j + k, bhi)] else []) @
               (if alo < i \<and> blo < j then [(alo, i, blo, j)] else []) @ queue)
          else gmb_loop a b queue)"
  by pat_completeness auto
termination
proof (relation "measure (\<lambda>(a, b, queue).
    sum_list (map (\<lambda>(alo, ahi, blo, bhi). 2 * (ahi - alo) + 1) queue))", goal_cases)
  case 1
  show ?case by simp
next
  case (2 a b alo ahi blo bhi queue i x j k)
  then have "find_longest_match a b alo ahi blo bhi = (i, j, k)" by simp
  from find_longest_match_bounds(1,2)[OF this \<open>k \<noteq> 0\<close>] show ?case using \<open>k \<noteq> 0\<close> by auto
next
  case 3
  then show ?case by simp
qed

declare gmb_loop.simps [simp del]

text \<open>The loop that collapses adjacent blocks, with \<open>(i1, j1, k1)\<close> the block held.\<close>

fun collapse :: "match \<Rightarrow> match list \<Rightarrow> match list" where
  "collapse (i1, j1, k1) [] = (if k1 \<noteq> 0 then [(i1, j1, k1)] else [])"
| "collapse (i1, j1, k1) ((i2, j2, k2) # blocks) =
     (if i1 + k1 = i2 \<and> j1 + k1 = j2 then collapse (i1, j1, k1 + k2) blocks
      else (if k1 \<noteq> 0 then [(i1, j1, k1)] else []) @ collapse (i2, j2, k2) blocks)"

definition get_matching_blocks :: "'a list \<Rightarrow> 'a list \<Rightarrow> match list" where
  "get_matching_blocks a b =
     (let la = length a; lb = length b;
          matching_blocks = sort (gmb_loop a b [(0, la, 0, lb)])
      in collapse (0, 0, 0) matching_blocks @ [(la, lb, 0)])"

datatype tag = Replace | Delete | Insert | Equal

type_synonym opcode = "tag \<times> nat \<times> nat \<times> nat \<times> nat"

fun opcodes_loop :: "nat \<Rightarrow> nat \<Rightarrow> match list \<Rightarrow> opcode list" where
  "opcodes_loop i j [] = []"
| "opcodes_loop i j ((ai, bj, sz) # blocks) =
     (if i < ai \<and> j < bj then [(Replace, i, ai, j, bj)]
      else if i < ai then [(Delete, i, ai, j, bj)]
      else if j < bj then [(Insert, i, ai, j, bj)]
      else []) @
     (if sz \<noteq> 0 then [(Equal, ai, ai + sz, bj, bj + sz)] else []) @
     opcodes_loop (ai + sz) (bj + sz) blocks"

definition get_opcodes :: "'a list \<Rightarrow> 'a list \<Rightarrow> opcode list" where
  "get_opcodes a b = opcodes_loop 0 0 (get_matching_blocks a b)"

subsection \<open>Similarity ratios\<close>

text \<open>
  Python computes the ratios in double precision.  The model computes them as exact
  rationals: the quotient of two integers below \<open>2^53\<close> is rounded to the nearest double,
  rounding is monotone, and two different quotients with denominators of this size, or
  such a quotient and one of the constants \<open>0.74\<close>, \<open>0.75\<close>, are further apart than the
  rounding error, so each comparison below has the outcome it has in Python.
\<close>

definition calculate_ratio :: "nat \<Rightarrow> nat \<Rightarrow> rat" where
  "calculate_ratio matches len = (if len \<noteq> 0 then 2 * of_nat matches / of_nat len else 1)"

definition ratio :: "'a list \<Rightarrow> 'a list \<Rightarrow> rat" where
  "ratio a b =
     calculate_ratio (sum_list (map (\<lambda>(i, j, k). k) (get_matching_blocks a b))) (length a + length b)"

fun quick_ratio_loop :: "'a list \<Rightarrow> 'a list \<Rightarrow> ('a \<rightharpoonup> int) \<Rightarrow> nat \<Rightarrow> nat" where
  "quick_ratio_loop b [] avail matches = matches"
| "quick_ratio_loop b (elt # as) avail matches =
     (let numb = (case avail elt of Some n \<Rightarrow> n | None \<Rightarrow> int (count_list b elt))
      in quick_ratio_loop b as (avail(elt \<mapsto> numb - 1)) (if numb > 0 then matches + 1 else matches))"

definition quick_ratio :: "'a list \<Rightarrow> 'a list \<Rightarrow> rat" where
  "quick_ratio a b = calculate_ratio (quick_ratio_loop b a Map.empty 0) (length a + length b)"

definition real_quick_ratio :: "'a list \<Rightarrow> 'a list \<Rightarrow> rat" where
  "real_quick_ratio a b = calculate_ratio (min (length a) (length b)) (length a + length b)"


section \<open>difflib.Differ\<close>

text \<open>
  \<open>Differ()\<close> with \<open>linejunk = None\<close> and \<open>charjunk = None\<close>.  Each generator is
  modelled by the list of the lines it yields.
\<close>

definition dump :: "char \<Rightarrow> string list \<Rightarrow> nat \<Rightarrow> nat \<Rightarrow> string list" where
  "dump tg x lo hi = map (\<lambda>i. tg # CHR '' '' # x ! i) [lo..<hi]"

definition plain_replace :: "string list \<Rightarrow> nat \<Rightarrow> nat \<Rightarrow> string list \<Rightarrow> nat \<Rightarrow> nat \<Rightarrow> string list" where
  "plain_replace a alo ahi b blo bhi =
     (if bhi - blo < ahi - alo
      then dump CHR ''+'' b blo bhi @ dump CHR ''-'' a alo ahi
      else dump CHR ''-'' a alo ahi @ dump CHR ''+'' b blo bhi)"

definition keep_original_ws :: "string \<Rightarrow> string \<Rightarrow> string" where
  "keep_original_ws s tag_s =
     map (\<lambda>(c, tag_c). if tag_c = CHR '' '' \<and> isspace c then c else tag_c) (zip s tag_s)"

definition qformat :: "string \<Rightarrow> string \<Rightarrow> string \<Rightarrow> string \<Rightarrow> string list" where
  "qformat aline bline atags btags =
     (let atags = rstrip (keep_original_ws aline atags);
          btags = rstrip (keep_original_ws bline btags)
      in [''- '' @ aline] @
         (if atags \<noteq> [] then [''? '' @ atags @ [CHR 0x0A]] else []) @
         [''+ '' @ bline] @
         (if btags \<noteq> [] then [''? '' @ btags @ [CHR 0x0A]] else []))"

text \<open>The loop over the character opcodes of the synch pair, building \<open>atags\<close> and \<open>btags\<close>.\<close>

fun intraline_tags :: "opcode list \<Rightarrow> string \<times> string" where
  "intraline_tags [] = ([], [])"
| "intraline_tags ((tg, ai1, ai2, bj1, bj2) # ops) =
     (let la = ai2 - ai1; lb = bj2 - bj1; (atags, btags) = intraline_tags ops in
      case tg of
        Replace \<Rightarrow> (replicate la CHR ''^'' @ atags, replicate lb CHR ''^'' @ btags)
      | Delete \<Rightarrow> (replicate la CHR ''-'' @ atags, btags)
      | Insert \<Rightarrow> (atags, replicate lb CHR ''+'' @ btags)
      | Equal \<Rightarrow> (replicate la CHR '' '' @ atags, replicate lb CHR '' '' @ btags))"

text \<open>
  The search of \<open>_fancy_replace\<close> for the best pair.  The state is \<open>best_ratio\<close>, the pair
  \<open>(best_i, best_j)\<close> (unbound until a pair is found) and the pair \<open>(eqi, eqj)\<close>.
\<close>

type_synonym search_state = "rat \<times> (nat \<times> nat) option \<times> (nat \<times> nat) option"

fun search_i :: "string list \<Rightarrow> string \<Rightarrow> nat \<Rightarrow> nat list \<Rightarrow> search_state \<Rightarrow> search_state" where
  "search_i a bj j [] st = st"
| "search_i a bj j (i # is) (best_ratio, best, eq) =
     (let ai = a ! i in
      if ai = bj then search_i a bj j is (best_ratio, best, if eq = None then Some (i, j) else eq)
      else if real_quick_ratio ai bj > best_ratio \<and> quick_ratio ai bj > best_ratio \<and>
              ratio ai bj > best_ratio
      then search_i a bj j is (ratio ai bj, Some (i, j), eq)
      else search_i a bj j is (best_ratio, best, eq))"

fun search_j :: "string list \<Rightarrow> nat \<Rightarrow> nat \<Rightarrow> string list \<Rightarrow> nat list \<Rightarrow> search_state \<Rightarrow> search_state" where
  "search_j a alo ahi b [] st = st"
| "search_j a alo ahi b (j # js) st = search_j a alo ahi b js (search_i a (b ! j) j [alo..<ahi] st)"

definition search :: "string list \<Rightarrow> nat \<Rightarrow> nat \<Rightarrow> string list \<Rightarrow> nat \<Rightarrow> nat \<Rightarrow> search_state" where
  "search a alo ahi b blo bhi = search_j a alo ahi b [blo..<bhi] (74 / 100, None, None)"

definition in_block :: "nat \<Rightarrow> nat \<Rightarrow> nat \<Rightarrow> nat \<Rightarrow> (nat \<times> nat) option \<Rightarrow> bool" where
  "in_block alo ahi blo bhi p \<longleftrightarrow>
     (case p of None \<Rightarrow> True | Some (i, j) \<Rightarrow> alo \<le> i \<and> i < ahi \<and> blo \<le> j \<and> j < bhi)"

lemma search_i_in_block:
  "set is \<subseteq> {alo..<ahi} \<Longrightarrow> blo \<le> j \<Longrightarrow> j < bhi \<Longrightarrow>
   in_block alo ahi blo bhi (fst (snd st)) \<Longrightarrow> in_block alo ahi blo bhi (snd (snd st)) \<Longrightarrow>
   in_block alo ahi blo bhi (fst (snd (search_i a bj j is st))) \<and>
   in_block alo ahi blo bhi (snd (snd (search_i a bj j is st)))"
proof (induction a bj j "is" st rule: search_i.induct)
  case (1 a bj j st)
  then show ?case by simp
next
  case (2 a bj j i "is" best_ratio best eq)
  then show ?case by (auto simp: in_block_def Let_def)
qed

lemma search_j_in_block:
  "set js \<subseteq> {blo..<bhi} \<Longrightarrow>
   in_block alo ahi blo bhi (fst (snd st)) \<Longrightarrow> in_block alo ahi blo bhi (snd (snd st)) \<Longrightarrow>
   in_block alo ahi blo bhi (fst (snd (search_j a alo ahi b js st))) \<and>
   in_block alo ahi blo bhi (snd (snd (search_j a alo ahi b js st)))"
proof (induction js arbitrary: st)
  case Nil
  then show ?case by simp
next
  case (Cons j js)
  have "in_block alo ahi blo bhi (fst (snd (search_i a (b ! j) j [alo..<ahi] st))) \<and>
        in_block alo ahi blo bhi (snd (snd (search_i a (b ! j) j [alo..<ahi] st)))"
    using Cons.prems by (intro search_i_in_block) auto
  then show ?case using Cons.IH[of "search_i a (b ! j) j [alo..<ahi] st"] Cons.prems(1) by simp
qed

lemma search_in_block:
  assumes "search a alo ahi b blo bhi = (best_ratio, best, eq)"
  shows "in_block alo ahi blo bhi best" "in_block alo ahi blo bhi eq"
  using search_j_in_block[of "[blo..<bhi]" blo bhi alo ahi "(74 / 100, None, None)" a b] assms
  by (auto simp: search_def in_block_def)

lemma search_eq_range:
  "(r, y) = search a alo ahi b blo bhi \<Longrightarrow> (best, Some (i, j)) = y \<Longrightarrow> alo \<le> i \<and> i < ahi"
  using search_in_block(2)[of a alo ahi b blo bhi r best "Some (i, j)"]
  by (auto simp: in_block_def)

lemma search_best_range:
  "(r, y) = search a alo ahi b blo bhi \<Longrightarrow> (Some (i, j), eq) = y \<Longrightarrow> alo \<le> i \<and> i < ahi"
  using search_in_block(1)[of a alo ahi b blo bhi r "Some (i, j)" eq]
  by (auto simp: in_block_def)

function fancy_replace :: "string list \<Rightarrow> nat \<Rightarrow> nat \<Rightarrow> string list \<Rightarrow> nat \<Rightarrow> nat \<Rightarrow> string list"
  and fancy_helper :: "string list \<Rightarrow> nat \<Rightarrow> nat \<Rightarrow> string list \<Rightarrow> nat \<Rightarrow> nat \<Rightarrow> string list" where
  "fancy_replace a alo ahi b blo bhi =
     (case search a alo ahi b blo bhi of
        (best_ratio, best, eq) \<Rightarrow>
          if best_ratio < 75 / 100 then
            (case eq of
               None \<Rightarrow> plain_replace a alo ahi b blo bhi
             | Some (eqi, eqj) \<Rightarrow>
                 fancy_helper a alo eqi b blo eqj @
                 [''  '' @ a ! eqi] @
                 fancy_helper a (eqi + 1) ahi b (eqj + 1) bhi)
          else
            (case best of
               None \<Rightarrow> []
             | Some (best_i, best_j) \<Rightarrow>
                 fancy_helper a alo best_i b blo best_j @
                 (let aelt = a ! best_i; belt = b ! best_j;
                      (atags, btags) = intraline_tags (get_opcodes aelt belt)
                  in qformat aelt belt atags btags) @
                 fancy_helper a (best_i + 1) ahi b (best_j + 1) bhi))"
| "fancy_helper a alo ahi b blo bhi =
     (if alo < ahi then
        if blo < bhi then fancy_replace a alo ahi b blo bhi
        else dump CHR ''-'' a alo ahi
      else if blo < bhi then dump CHR ''+'' b blo bhi
      else [])"
  by pat_completeness auto
termination
proof (relation "measure (\<lambda>x. case x of
    Inl (a, alo, ahi, b, blo, bhi) \<Rightarrow> 2 * (ahi - alo)
  | Inr (a, alo, ahi, b, blo, bhi) \<Rightarrow> 2 * (ahi - alo) + 1)", goal_cases)
  case 1
  then show ?case by simp
next
  case (2 a alo ahi b blo bhi r y best eq p i j)
  then show ?case using search_eq_range[of r y a alo ahi b blo bhi best i j] by (simp; arith)
next
  case (3 a alo ahi b blo bhi r y best eq p i j)
  then show ?case using search_eq_range[of r y a alo ahi b blo bhi best i j] by (simp; arith)
next
  case (4 a alo ahi b blo bhi r y best eq p i j)
  then show ?case using search_best_range[of r y a alo ahi b blo bhi i j eq] by (simp; arith)
next
  case (5 a alo ahi b blo bhi r y best eq p i j)
  then show ?case using search_best_range[of r y a alo ahi b blo bhi i j eq] by (simp; arith)
next
  case 6
  then show ?case by simp
qed


declare fancy_replace.simps [simp del] fancy_helper.simps [simp del]

definition compare :: "string list \<Rightarrow> string list \<Rightarrow> string list" where
  "compare a b =
     concat (map (\<lambda>(tg, alo, ahi, blo, bhi).
        case tg of
          Replace \<Rightarrow> fancy_replace a alo ahi b blo bhi
        | Delete \<Rightarrow> dump CHR ''-'' a alo ahi
        | Insert \<Rightarrow> dump CHR ''+'' b blo bhi
        | Equal \<Rightarrow> dump CHR '' '' a alo ahi) (get_opcodes a b))"

text \<open>\<open>difflib.restore(delta, which)\<close>, with the prefix of the side given.\<close>

definition restore :: "string list \<Rightarrow> string \<Rightarrow> string list" where
  "restore delta tg = map (drop 2) (filter (\<lambda>line. take 2 line = ''  '' \<or> take 2 line = tg) delta)"

section \<open>DiffViewer\<close>

text \<open>
  The threshold and the change ratio are Python floats, modelled as rationals: the
  quotient of the two line counts is exact here and rounded to the nearest double in
  Python.
\<close>

definition changed_lines :: "string \<Rightarrow> string \<Rightarrow> nat" where
  "changed_lines content1 content2 =
     (let lines1 = splitlines False content1;
          lines2 = splitlines False content2;
          diff = compare lines1 lines2
      in length (filter (\<lambda>line. startswith line ''+ '' \<or> startswith line ''- '') diff))"

definition max_lines :: "string \<Rightarrow> string \<Rightarrow> nat" where
  "max_lines content1 content2 =
     max (length (splitlines False content1)) (length (splitlines False content2))"

definition change_ratio :: "string \<Rightarrow> string \<Rightarrow> rat" where
  "change_ratio content1 content2 =
     of_nat (changed_lines content1 content2) / of_nat (max_lines content1 content2)"

definition has_significant_changes :: "rat \<Rightarrow> string \<Rightarrow> string \<Rightarrow> bool" where
  "has_significant_changes min_change_threshold content1 content2 =
     (if (content1 = [] \<and> content2 \<noteq> []) \<or> (content2 = [] \<and> content1 \<noteq> []) then True
      else if content1 = [] \<and> content2 = [] then False
      else if max_lines content1 content2 = 0 then False
      else change_ratio content1 content2 \<ge> min_change_threshold)"










section \<open>The directory scan\<close>

text \<open>
  A path is the list of its parts; \<open>pathlib\<close> orders paths as the lists of their parts,
  which is the lexicographic order on \<open>string list\<close>.  The file system is a tree: a
  file holds the text that \<open>read_text\<close> returns (\<open>None\<close> when reading it raises), a
  directory the entries that \<open>os.scandir\<close> lists, in that order.
\<close>

type_synonym path = "string list"

datatype fsnode = File "string option" | Dir "(string \<times> fsnode) list"

definition IGNORED_DIRS_DEFAULT :: "string set" where
  "IGNORED_DIRS_DEFAULT =
     {''.git'', ''.svn'', ''.hg'', ''__pycache__'', ''build'', ''dist'', ''out'',
      ''.idea'', ''.vscode'', ''.vs'', ''.gradle'', ''.dart_tool'', ''node_modules'',
      ''.cache'', ''.pytest_cache'', ''target''}"

fun fs_lookup :: "fsnode \<Rightarrow> path \<Rightarrow> fsnode option" where
  "fs_lookup n [] = Some n"
| "fs_lookup (File c) (p # ps) = None"
| "fs_lookup (Dir entries) (p # ps) =
     (case map_of entries p of None \<Rightarrow> None | Some n \<Rightarrow> fs_lookup n ps)"

definition read_text :: "fsnode \<Rightarrow> path \<Rightarrow> string option" where
  "read_text fs p = (case fs_lookup fs p of Some (File (Some c)) \<Rightarrow> Some c | _ \<Rightarrow> None)"

text \<open>
  \<open>os.walk(base)\<close> as \<open>list_files\<close> consumes it: the files of a directory, then the walk
  of each of its subdirectories that the loop body has left in \<open>dirs\<close>.
\<close>

fun walk :: "path \<Rightarrow> (string \<times> fsnode) list \<Rightarrow> path list"
  and descend :: "path \<Rightarrow> (string \<times> fsnode) list \<Rightarrow> path list" where
  "walk dirpath entries =
     map (\<lambda>(f, n). dirpath @ [f]) (filter (\<lambda>(f, n). case n of File c \<Rightarrow> True | Dir es \<Rightarrow> False) entries) @
     descend dirpath entries"
| "descend dirpath [] = []"
| "descend dirpath ((d, File c) # entries) = descend dirpath entries"
| "descend dirpath ((d, Dir sub) # entries) =
     (if d \<notin> IGNORED_DIRS_DEFAULT then walk (dirpath @ [d]) sub else []) @ descend dirpath entries"

text \<open>A Python dictionary: the items in insertion order, each key once.\<close>

type_synonym ('k, 'v) dict = "('k \<times> 'v) list"

definition dict_set :: "'k \<Rightarrow> 'v \<Rightarrow> ('k, 'v) dict \<Rightarrow> ('k, 'v) dict" where
  "dict_set k v d =
     (if k \<in> set (map fst d) then map (\<lambda>(k', v'). if k' = k then (k', v) else (k', v')) d
      else d @ [(k, v)])"

definition dict_get :: "('k, 'v) dict \<Rightarrow> 'k \<Rightarrow> 'v option" where
  "dict_get d k = map_of d k"

definition dict_keys :: "('k, 'v) dict \<Rightarrow> 'k list" where
  "dict_keys d = map fst d"

text \<open>\<open>os.walk\<close> of a path that is not a directory yields nothing.\<close>

definition list_files :: "fsnode \<Rightarrow> path \<Rightarrow> (path, path) dict" where
  "list_files fs base =
     (case fs_lookup fs base of
        Some (Dir entries) \<Rightarrow>
          fold (\<lambda>p result. dict_set (drop (length base) p) p result) (walk base entries) []
      | _ \<Rightarrow> [])"

type_synonym file_pair = "path option \<times> path option \<times> path"

text \<open>
  The loop of \<open>scan_directories\<close> over \<open>all_paths\<close>, returning what it appends to
  \<open>file_pairs\<close>.  \<open>sig\<close> is the classifier and \<open>rd\<close> reads a file.
\<close>

fun scan_loop :: "(string \<Rightarrow> string \<Rightarrow> bool) \<Rightarrow> (path \<Rightarrow> string option) \<Rightarrow>
    (path, path) dict \<Rightarrow> (path, path) dict \<Rightarrow> path list \<Rightarrow> file_pair list" where
  "scan_loop sig rd files1 files2 [] = []"
| "scan_loop sig rd files1 files2 (rel # all_paths) =
     (let f1 = dict_get files1 rel;
          f2 = dict_get files2 rel;
          rest = scan_loop sig rd files1 files2 all_paths
      in case (f1, f2) of
           (Some p1, Some p2) \<Rightarrow>
             (case (rd p1, rd p2) of
                (Some content1, Some content2) \<Rightarrow>
                  if content1 \<noteq> content2 \<and> sig content1 content2 then (f1, f2, rel) # rest
                  else rest
              | _ \<Rightarrow> (f1, f2, rel) # rest)
         | _ \<Rightarrow> (f1, f2, rel) # rest)"

definition scan_pairs :: "(string \<Rightarrow> string \<Rightarrow> bool) \<Rightarrow> (path \<Rightarrow> string option) \<Rightarrow>
    (path, path) dict \<Rightarrow> (path, path) dict \<Rightarrow> file_pair list" where
  "scan_pairs sig rd files1 files2 =
     (let all_paths = sorted_list_of_set (set (dict_keys files1) \<union> set (dict_keys files2))
      in scan_loop sig rd files1 files2 all_paths)"

definition scan_directories :: "fsnode \<Rightarrow> path \<Rightarrow> path \<Rightarrow> rat \<Rightarrow> file_pair list" where
  "scan_directories fs dir1 dir2 min_change_threshold =
     scan_pairs (has_significant_changes min_change_threshold) (read_text fs)
       (list_files fs dir1) (list_files fs dir2)"


definition rel_of :: "file_pair \<Rightarrow> path" where
  "rel_of fp = (case fp of (f1, f2, rel) \<Rightarrow> rel)"



definition example_fs :: fsnode where
  "example_fs = Dir [(''left'', Dir [(''f.txt'', File (Some ''a'')), (''g.txt'', File (Some ''b''))]),
                     (''right'', Dir [(''g.txt'', File (Some ''b''))])]"

section \<open>The matching blocks form a chain\<close>


















section \<open>The script restores both sequences\<close>

definition slice :: "'a list \<Rightarrow> nat \<Rightarrow> nat \<Rightarrow> 'a list" where
  "slice x lo hi = map ((!) x) [lo..<hi]"


lemma slice_empty [simp]: "hi \<le> lo \<Longrightarrow> slice x lo hi = []"
  by (simp add: slice_def)




lemma restore_append [simp]: "restore (xs @ ys) t = restore xs t @ restore ys t"
  by (simp add: restore_def)

lemma restore_Nil [simp]: "restore [] t = []"
  by (simp add: restore_def)

lemma restore_Cons [simp]:
  "restore (l # ls) t = (if take 2 l = ''  '' \<or> take 2 l = t then drop 2 l # restore ls t else restore ls t)"
  by (simp add: restore_def)






definition search_inv :: "string list \<Rightarrow> string list \<Rightarrow> search_state \<Rightarrow> bool" where
  "search_inv a b st \<longleftrightarrow>
     (case st of (best_ratio, best, eq) \<Rightarrow>
        (best = None \<longrightarrow> best_ratio = 74 / 100) \<and>
        (case eq of None \<Rightarrow> True | Some (i, j) \<Rightarrow> a ! i = b ! j))"

lemma search_i_inv:
  "search_inv a b st \<Longrightarrow> bj = b ! j \<Longrightarrow> search_inv a b (search_i a bj j is st)"
proof (induction a bj j "is" st rule: search_i.induct)
  case (1 a bj j st)
  then show ?case by simp
next
  case (2 a bj j i "is" best_ratio best eq)
  show ?case
  proof (cases "a ! i = bj")
    case True
    have "search_inv a b (best_ratio, best, if eq = None then Some (i, j) else eq)"
      using "2.prems" True by (auto simp: search_inv_def)
    from "2.IH"(1)[OF refl True this "2.prems"(2)] True show ?thesis by simp
  next
    case False
    show ?thesis
    proof (cases "real_quick_ratio (a ! i) bj > best_ratio \<and> quick_ratio (a ! i) bj > best_ratio \<and>
              ratio (a ! i) bj > best_ratio")
      case True
      have "search_inv a b (ratio (a ! i) bj, Some (i, j), eq)"
        using "2.prems" by (auto simp: search_inv_def)
      from "2.IH"(2)[OF refl False True this "2.prems"(2)] False True show ?thesis by simp
    next
      case F2: False
      from "2.IH"(3)[OF refl False F2 "2.prems"] False F2 show ?thesis by auto
    qed
  qed
qed

lemma search_j_inv:
  "search_inv a b st \<Longrightarrow> search_inv a b (search_j a alo ahi b js st)"
proof (induction js arbitrary: st)
  case Nil
  then show ?case by simp
next
  case (Cons j js)
  have "search_inv a b (search_i a (b ! j) j [alo..<ahi] st)"
    by (rule search_i_inv[OF Cons.prems refl])
  from Cons.IH[OF this] show ?case by simp
qed

lemma search_inv: "search_inv a b (search a alo ahi b blo bhi)"
  unfolding search_def by (rule search_j_inv) (simp add: search_inv_def)












lemma restore_concat_append:
  "restore (concat (map f (xs @ ys))) t = restore (concat (map f xs)) t @ restore (concat (map f ys)) t"
  by simp




section \<open>Counting the lines of a script\<close>

lemma startswith2 [simp]: "startswith l [c, d] \<longleftrightarrow> take 2 l = [c, d]"
  by (simp add: startswith_def numeral_2_eq_2)














section \<open>Properties of the classifier\<close>

text \<open>
  C8.  The classifier is monotone in the threshold: a pair of contents that is
  significant at a threshold \<open>t1\<close> is significant at every threshold \<open>t2 \<le> t1\<close>.
\<close>

theorem classify_monotone:
  assumes "has_significant_changes t1 a b" and "t2 \<le> t1"
  shows "has_significant_changes t2 a b"
  using assms by (auto simp: has_significant_changes_def split: if_splits)

theorem classify_monotone_witness:
  "has_significant_changes 1 ''x'' ''y'' \<and> has_significant_changes (5 / 100) ''x'' ''y''"
proof -
  have h: "has_significant_changes 1 ''x'' ''y''" by code_simp
  have "(5 / 100 :: rat) \<le> 1" by simp
  from classify_monotone[OF h this] h show ?thesis by simp
qed













section \<open>Properties of the scan\<close>

lemma dict_get_None_iff: "dict_get d k = None \<longleftrightarrow> k \<notin> set (dict_keys d)"
  by (simp add: dict_get_def dict_keys_def map_of_eq_None_iff)

lemma scan_loop_one_sided:
  "rel \<in> set all_paths \<Longrightarrow> dict_get files1 rel = None \<or> dict_get files2 rel = None \<Longrightarrow>
   (dict_get files1 rel, dict_get files2 rel, rel) \<in> set (scan_loop sig rd files1 files2 all_paths)"
proof (induction all_paths)
  case Nil
  then show ?case by simp
next
  case (Cons p ps)
  show ?case
  proof (cases "p = rel")
    case True
    then show ?thesis using Cons.prems(2)
      by (auto simp: Let_def split: option.splits)
  next
    case False
    then have "(dict_get files1 rel, dict_get files2 rel, rel) \<in> set (scan_loop sig rd files1 files2 ps)"
      using Cons by auto
    then show ?thesis
      by (auto simp: Let_def split: option.splits)
  qed
qed

lemma scan_loop_step:
  "scan_loop sig rd files1 files2 (p # ps) = scan_loop sig rd files1 files2 ps \<or>
   scan_loop sig rd files1 files2 (p # ps) =
     (dict_get files1 p, dict_get files2 p, p) # scan_loop sig rd files1 files2 ps"
  by (auto simp: Let_def split: option.splits)

lemma rel_of_triple [simp]: "rel_of (f1, f2, rel) = rel"
  by (simp add: rel_of_def)

lemma scan_loop_rel_subset:
  "set (map rel_of (scan_loop sig rd files1 files2 ps)) \<subseteq> set ps"
proof (induction ps)
  case Nil
  then show ?case by simp
next
  case (Cons p ps)
  from scan_loop_step[of sig rd files1 files2 p ps] show ?case
  proof
    assume "scan_loop sig rd files1 files2 (p # ps) = scan_loop sig rd files1 files2 ps"
    then show ?thesis using Cons by (simp only: set_simps) blast
  next
    assume "scan_loop sig rd files1 files2 (p # ps) =
      (dict_get files1 p, dict_get files2 p, p) # scan_loop sig rd files1 files2 ps"
    then show ?thesis using Cons by (simp only: list.map set_simps rel_of_triple) blast
  qed
qed

lemma scan_loop_sorted:
  "sorted ps \<Longrightarrow> distinct ps \<Longrightarrow>
   sorted (map rel_of (scan_loop sig rd files1 files2 ps)) \<and>
   distinct (map rel_of (scan_loop sig rd files1 files2 ps))"
proof (induction ps)
  case Nil
  then show ?case by simp
next
  case (Cons p ps)
  then have ih: "sorted (map rel_of (scan_loop sig rd files1 files2 ps))"
    "distinct (map rel_of (scan_loop sig rd files1 files2 ps))" by auto
  have sub: "\<forall>q\<in>set (map rel_of (scan_loop sig rd files1 files2 ps)). p \<le> q \<and> p \<noteq> q"
    using scan_loop_rel_subset[of sig rd files1 files2 ps] Cons.prems by auto
  from scan_loop_step[of sig rd files1 files2 p ps] show ?case
  proof
    assume "scan_loop sig rd files1 files2 (p # ps) = scan_loop sig rd files1 files2 ps"
    then show ?thesis using ih by (simp only:)
  next
    assume "scan_loop sig rd files1 files2 (p # ps) =
      (dict_get files1 p, dict_get files2 p, p) # scan_loop sig rd files1 files2 ps"
    then show ?thesis using ih sub
      by (simp only: list.map rel_of_triple sorted_simps distinct.simps) blast
  qed
qed

lemma scan_loop_cong:
  "(\<And>k. dict_get files1' k = dict_get files1 k) \<Longrightarrow> (\<And>k. dict_get files2' k = dict_get files2 k) \<Longrightarrow>
   scan_loop sig rd files1' files2' ps = scan_loop sig rd files1 files2 ps"
  by (induction ps) (simp_all add: Let_def)

lemma dict_get_map_of: "dict_get d = map_of d"
  by (rule ext) (simp add: dict_get_def)

lemma dict_keys_dom: "set (dict_keys d) = dom (dict_get d)"
  by (simp add: dict_keys_def dict_get_map_of dom_map_of_conv_image_fst)

lemma all_paths_set:
  "set (sorted_list_of_set (set (dict_keys files1) \<union> set (dict_keys files2))) =
     set (dict_keys files1) \<union> set (dict_keys files2)"
  by simp

text \<open>
  C5.  A relative path that only one of the two mappings has is in the scan result, with
  the location of the side that has it and no location for the other side.  This holds
  for every classifier and every way of reading files, so neither is consulted for
  such a pair, and in particular for every threshold.
\<close>

theorem one_sided_pair_retained:
  assumes "(rel \<in> set (dict_keys files1)) \<noteq> (rel \<in> set (dict_keys files2))"
  shows "(dict_get files1 rel, dict_get files2 rel, rel) \<in> set (scan_pairs sig rd files1 files2) \<and>
         (dict_get files1 rel = None \<or> dict_get files2 rel = None) \<and>
         (files1 = list_files fs dir1 \<and> files2 = list_files fs dir2 \<longrightarrow>
            (dict_get files1 rel, dict_get files2 rel, rel) \<in> set (scan_directories fs dir1 dir2 threshold))"
proof -
  from assms have n: "dict_get files1 rel = None \<or> dict_get files2 rel = None"
    by (auto simp: dict_get_None_iff)
  from assms have "rel \<in> set (sorted_list_of_set (set (dict_keys files1) \<union> set (dict_keys files2)))"
    by auto
  from scan_loop_one_sided[OF this n]
  have "\<And>sig rd. (dict_get files1 rel, dict_get files2 rel, rel) \<in> set (scan_pairs sig rd files1 files2)"
    by (simp add: scan_pairs_def)
  then show ?thesis using n by (auto simp: scan_directories_def)
qed

theorem one_sided_pair_retained_witness:
  "(Some [''left'', ''f.txt''], None, [''f.txt'']) \<in> set (scan_directories example_fs [''left''] [''right''] 1)"
proof -
  have l: "list_files example_fs [''left''] = [([''f.txt''], [''left'', ''f.txt'']), ([''g.txt''], [''left'', ''g.txt''])]"
    "list_files example_fs [''right''] = [([''g.txt''], [''right'', ''g.txt''])]"
    by code_simp+
  have h: "([''f.txt''] \<in> set (dict_keys (list_files example_fs [''left'']))) \<noteq>
           ([''f.txt''] \<in> set (dict_keys (list_files example_fs [''right''])))"
    unfolding l by (simp add: dict_keys_def)
  have g: "dict_get (list_files example_fs [''left'']) [''f.txt''] = Some [''left'', ''f.txt'']"
    "dict_get (list_files example_fs [''right'']) [''f.txt''] = None"
    unfolding l by (simp_all add: dict_get_def)
  from one_sided_pair_retained[OF h, of undefined undefined example_fs "[''left'']" "[''right'']" 1]
  show ?thesis unfolding g by simp
qed

text \<open>
  C6.  The scan result is in strictly increasing order of relative path, the
  lexicographic order of the lists of path parts, and it depends on the two mappings
  only through the location each assigns to each path, not on the order in which the
  enumeration has entered the paths.
\<close>

theorem scan_sorted_deterministic:
  "sorted (map rel_of (scan_pairs sig rd files1 files2)) \<and>
   distinct (map rel_of (scan_pairs sig rd files1 files2)) \<and>
   ((\<forall>k. dict_get files1' k = dict_get files1 k) \<and> (\<forall>k. dict_get files2' k = dict_get files2 k) \<longrightarrow>
      scan_pairs sig rd files1' files2' = scan_pairs sig rd files1 files2)"
proof -
  have "sorted (map rel_of (scan_pairs sig rd files1 files2)) \<and>
        distinct (map rel_of (scan_pairs sig rd files1 files2))"
    unfolding scan_pairs_def Let_def by (rule scan_loop_sorted) simp_all
  moreover have "scan_pairs sig rd files1' files2' = scan_pairs sig rd files1 files2"
    if "\<forall>k. dict_get files1' k = dict_get files1 k" "\<forall>k. dict_get files2' k = dict_get files2 k"
  proof -
    from that have "dict_get files1' = dict_get files1" "dict_get files2' = dict_get files2" by auto
    then have "set (dict_keys files1') = set (dict_keys files1)" "set (dict_keys files2') = set (dict_keys files2)"
      by (simp_all add: dict_keys_dom)
    then show ?thesis
      using scan_loop_cong[of files1' files1 files2' files2 sig rd] that
      by (simp add: scan_pairs_def)
  qed
  ultimately show ?thesis by blast
qed


theorem scan_sorted_deterministic_witness:
  "sorted (map rel_of (scan_pairs (has_significant_changes (5 / 100)) (read_text example_fs)
      [([''g.txt''], [''left'', ''g.txt'']), ([''f.txt''], [''left'', ''f.txt''])]
      [([''g.txt''], [''right'', ''g.txt''])])) \<and>
   scan_pairs (has_significant_changes (5 / 100)) (read_text example_fs)
      [([''g.txt''], [''left'', ''g.txt'']), ([''f.txt''], [''left'', ''f.txt''])]
      [([''g.txt''], [''right'', ''g.txt''])] =
   scan_pairs (has_significant_changes (5 / 100)) (read_text example_fs)
      [([''f.txt''], [''left'', ''f.txt'']), ([''g.txt''], [''left'', ''g.txt''])]
      [([''g.txt''], [''right'', ''g.txt''])]"
proof -
  have "\<forall>k. dict_get [([''g.txt''], [''left'', ''g.txt'']), ([''f.txt''], [''left'', ''f.txt''])] k =
            dict_get [([''f.txt''], [''left'', ''f.txt'']), ([''g.txt''], [''left'', ''g.txt''])] k"
    by (simp add: dict_get_def)
  with scan_sorted_deterministic[of "has_significant_changes (5 / 100)" "read_text example_fs"
      "[([''g.txt''], [''left'', ''g.txt'']), ([''f.txt''], [''left'', ''f.txt''])]"
      "[([''g.txt''], [''right'', ''g.txt''])]"
      "[([''g.txt''], [''left'', ''g.txt'']), ([''f.txt''], [''left'', ''f.txt''])]"
      "[([''g.txt''], [''right'', ''g.txt''])]"]
    scan_sorted_deterministic[of "has_significant_changes (5 / 100)" "read_text example_fs"
      "[([''f.txt''], [''left'', ''f.txt'']), ([''g.txt''], [''left'', ''g.txt''])]"
      "[([''g.txt''], [''right'', ''g.txt''])]"
      "[([''g.txt''], [''left'', ''g.txt'']), ([''f.txt''], [''left'', ''f.txt''])]"
      "[([''g.txt''], [''right'', ''g.txt''])]"]
  show ?thesis by blast
qed







end
